theory Spec2Isabelle
  imports Complex_Main "HOL-Library.Extended_Nat" "HOL-Library.Multiset"
begin

section \<open>Python values, exceptions and list access\<close>

text \<open>
  The solver works on Python lists of lists of unbounded integers. A board is an
  \<open>int list list\<close>. An exception is a value of \<open>error\<close>, and a computation that may
  raise returns \<open>error + 'a\<close> with \<open>Inl\<close> for the exception.
\<close>

datatype error = IndexError | ValueError | ZeroDivisionError | OverflowError

type_synonym board = "int list list"

type_synonym cell = "nat \<times> nat"

definition rbind :: "error + 'a \<Rightarrow> ('a \<Rightarrow> error + 'b) \<Rightarrow> error + 'b" where
  "rbind m f = (case m of Inl e \<Rightarrow> Inl e | Inr x \<Rightarrow> f x)"

text \<open>
  \<open>xs[i]\<close> of Python: a negative index counts from the end, an index outside
  \<open>[-len, len)\<close> raises IndexError.
\<close>

definition py_index :: "'a list \<Rightarrow> int \<Rightarrow> error + 'a" where
  "py_index xs i =
     (let n = int (length xs); j = (if i < 0 then i + n else i)
      in if 0 \<le> j \<and> j < n then Inr (xs ! nat j) else Inl IndexError)"

text \<open>\<open>board[r][c]\<close>: the row is fetched first, then the column inside it.\<close>

definition cell_at :: "'a list list \<Rightarrow> int \<Rightarrow> int \<Rightarrow> error + 'a" where
  "cell_at b r c = rbind (py_index b r) (\<lambda>row. py_index row c)"

text \<open>
  A \<open>for\<close> loop whose body may raise: \<open>map_raise\<close> collects the results of the body,
  \<open>fold_raise\<close> threads an accumulator through it. The first exception ends the loop.
\<close>

fun map_raise :: "('a \<Rightarrow> error + 'b) \<Rightarrow> 'a list \<Rightarrow> error + 'b list" where
  "map_raise f [] = Inr []"
| "map_raise f (x # xs) =
     rbind (f x) (\<lambda>y. rbind (map_raise f xs) (\<lambda>ys. Inr (y # ys)))"

fun fold_raise :: "('a \<Rightarrow> 'b \<Rightarrow> error + 'b) \<Rightarrow> 'a list \<Rightarrow> 'b \<Rightarrow> error + 'b" where
  "fold_raise f [] acc = Inr acc"
| "fold_raise f (x # xs) acc = rbind (f x acc) (fold_raise f xs)"

text \<open>Reading a list of coordinates in order; the first failing read raises.\<close>

definition read_cells :: "'a list list \<Rightarrow> cell list \<Rightarrow> error + 'a list" where
  "read_cells b cs = map_raise (\<lambda>rc. cell_at b (int (fst rc)) (int (snd rc))) cs"

text \<open>\<open>board[r][c] = v\<close> on a copy of the board.\<close>

definition set_cell :: "'a list list \<Rightarrow> nat \<Rightarrow> nat \<Rightarrow> 'a \<Rightarrow> error + 'a list list" where
  "set_cell b r c v =
     (if r < length b \<and> c < length (b ! r) then Inr (b[r := (b ! r)[c := v]])
      else Inl IndexError)"

text \<open>
  \<open>b[r][c1], b[r][c2] = b[r][c2], b[r][c1]\<close>: both cells are read, then \<open>b[r][c1]\<close> is
  stored, then \<open>b[r][c2]\<close>.
\<close>

definition swap_cells :: "'a list list \<Rightarrow> nat \<Rightarrow> nat \<Rightarrow> nat \<Rightarrow> error + 'a list list" where
  "swap_cells b r c1 c2 =
     rbind (cell_at b (int r) (int c2)) (\<lambda>v2.
     rbind (cell_at b (int r) (int c1)) (\<lambda>v1.
     rbind (set_cell b r c1 v2) (\<lambda>b'. set_cell b' r c2 v1)))"

text \<open>
  \<open>range(0, n, step)\<close>: ValueError on a zero step.
\<close>

definition py_range_step :: "nat \<Rightarrow> nat \<Rightarrow> error + nat list" where
  "py_range_step n step =
     (if step = 0 then Inl ValueError
      else Inr (map (\<lambda>k. k * step) [0..<(n + step - 1) div step]))"

text \<open>
  \<open>min(xs, key=...)\<close> keeps the first minimal element: the candidate changes only on a
  strictly smaller key. The caller raises ValueError on an empty list.
\<close>

fun min_by :: "('a \<Rightarrow> nat) \<Rightarrow> 'a \<Rightarrow> 'a list \<Rightarrow> 'a" where
  "min_by key best [] = best"
| "min_by key best (x # xs) = min_by key (if key x < key best then x else best) xs"

definition py_min :: "('a \<Rightarrow> nat) \<Rightarrow> 'a list \<Rightarrow> error + 'a" where
  "py_min key xs = (case xs of [] \<Rightarrow> Inl ValueError | x # rest \<Rightarrow> Inr (min_by key x rest))"

text \<open>The N by N grids of the data model.\<close>

definition square :: "nat \<Rightarrow> 'a list list \<Rightarrow> bool" where
  "square n b = (length b = n \<and> list_all (\<lambda>row. length row = n) b)"

section \<open>Floating-point numbers\<close>

text \<open>
  Python's \<open>float\<close> is the IEEE 754 binary64 format. A finite float is the rational number
  it denotes; the sign of a zero plays no part in this program. Every operation returns the
  exact result rounded to the nearest float, ties to the even significand: 53 bits of
  significand, the quantum never below \<open>2^-1074\<close>, and an infinity once the rounded
  magnitude reaches \<open>2^1024\<close>. The operands of the program's two products are finite, so
  no NaN arises.
\<close>

datatype double = Finite rat | Infinite bool

definition pow2 :: "int \<Rightarrow> rat" where
  "pow2 e = (if 0 \<le> e then 2 ^ nat e else 1 / 2 ^ nat (- e))"

definition round_half_even :: "rat \<Rightarrow> int" where
  "round_half_even x =
     (let f = \<lfloor>x\<rfloor>; d = x - of_int f
      in if d < 1 / 2 then f else if 1 / 2 < d then f + 1 else if even f then f else f + 1)"

text \<open>
  The number of binary digits of an integer, and with it the binary exponent
  \<open>\<lfloor>log\<^sub>2 |x|\<rfloor>\<close> of a nonzero rational.
\<close>

function bit_length :: "int \<Rightarrow> int" where
  "bit_length n = (if n \<le> 0 then 0 else 1 + bit_length (n div 2))"
  by auto

termination bit_length
  by (relation "measure nat") auto

declare bit_length.simps [simp del]

definition exponent :: "rat \<Rightarrow> int" where
  "exponent x =
     (if 1 \<le> \<bar>x\<bar> then bit_length \<lfloor>\<bar>x\<bar>\<rfloor> - 1
      else - bit_length (\<lceil>1 / \<bar>x\<bar>\<rceil> - 1))"

definition round_double :: "rat \<Rightarrow> double" where
  "round_double x =
     (if x = 0 then Finite 0
      else
        (let q = max (exponent x - 52) (- 1074);
             r = of_int (round_half_even (x / pow2 q)) * pow2 q
         in if r \<noteq> 0 \<and> 1024 \<le> exponent r then Infinite (0 < x) else Finite r))"

text \<open>
  The conversion of a Python \<open>int\<close> operand of a mixed operation: correctly rounded,
  OverflowError when the integer is too large for a float.
\<close>

definition float_of_int :: "int \<Rightarrow> error + rat" where
  "float_of_int n =
     (case round_double (of_int n) of Finite x \<Rightarrow> Inr x | Infinite pos \<Rightarrow> Inl OverflowError)"

definition fmul :: "rat \<Rightarrow> rat \<Rightarrow> double" where
  "fmul x y = round_double (x * y)"

definition fadd :: "rat \<Rightarrow> double \<Rightarrow> double" where
  "fadd x y = (case y of Finite v \<Rightarrow> round_double (x + v) | Infinite pos \<Rightarrow> Infinite pos)"

text \<open>\<open>n > x\<close> for an \<open>int\<close> \<open>n\<close> and a float \<open>x\<close>: Python compares the exact values.\<close>

definition int_gt_double :: "int \<Rightarrow> double \<Rightarrow> bool" where
  "int_gt_double n x = (case x of Finite v \<Rightarrow> v < of_int n | Infinite pos \<Rightarrow> \<not> pos)"

text \<open>
  \<open>int(x)\<close> for a float \<open>x\<close>: truncation towards zero, OverflowError on an infinity.
\<close>

definition int_of_double :: "double \<Rightarrow> error + int" where
  "int_of_double x =
     (case x of Finite v \<Rightarrow> Inr (if 0 \<le> v then \<lfloor>v\<rfloor> else \<lceil>v\<rceil>)
              | Infinite pos \<Rightarrow> Inl OverflowError)"

section \<open>The random module\<close>

text \<open>
  The source draws from Python's global generator. The model threads a source of draws
  through every call: a list of naturals, read from the front, that yields 0 for ever once
  it is used up. Each library call is modelled by its documented contract, with the draw
  selecting one of the values the call can return; \<open>random.random\<close> and
  \<open>random.uniform\<close> compute in floats as the library does.
\<close>

type_synonym rng = "nat list"

definition draw :: "rng \<Rightarrow> nat \<times> rng" where
  "draw g = (case g of [] \<Rightarrow> (0, []) | k # ks \<Rightarrow> (k, ks))"

text \<open>\<open>random.randint(a, b)\<close>: an integer of \<open>[a, b]\<close>; ValueError on an empty range.\<close>

definition randint :: "int \<Rightarrow> int \<Rightarrow> rng \<Rightarrow> error + int \<times> rng" where
  "randint a b g =
     (if b < a then Inl ValueError
      else Inr (a + int (fst (draw g)) mod (b - a + 1), snd (draw g)))"

text \<open>\<open>random.choice(xs)\<close>: an element of \<open>xs\<close>; IndexError on an empty list.\<close>

definition choice :: "'a list \<Rightarrow> rng \<Rightarrow> error + 'a \<times> rng" where
  "choice xs g =
     (if xs = [] then Inl IndexError
      else Inr (xs ! (fst (draw g) mod length xs), snd (draw g)))"

text \<open>
  \<open>random.shuffle(xs)\<close>: some permutation of \<open>xs\<close>. The draw is read in the factorial
  number system: each element is inserted at the position given by the next digit, so
  every permutation is the image of some draw.
\<close>

fun arrange :: "nat \<Rightarrow> 'a list \<Rightarrow> 'a list" where
  "arrange k [] = []"
| "arrange k (x # xs) =
     (let n = Suc (length xs); rest = arrange (k div n) xs; i = k mod n
      in take i rest @ x # drop i rest)"

definition shuffle :: "'a list \<Rightarrow> rng \<Rightarrow> 'a list \<times> rng" where
  "shuffle xs g = (arrange (fst (draw g)) xs, snd (draw g))"

text \<open>
  \<open>random.random()\<close>: a multiple of \<open>2^-53\<close> in \<open>[0, 1)\<close>.
\<close>

definition random_unit :: "rng \<Rightarrow> rat \<times> rng" where
  "random_unit g = (of_int (int (fst (draw g)) mod 2 ^ 53) / 2 ^ 53, snd (draw g))"

text \<open>
  \<open>random.uniform(a, b)\<close> is the library's \<open>a + (b - a) * self.random()\<close>, here for
  \<open>int\<close> arguments as the program calls it: the difference is an exact integer, the
  product and the sum are float operations.
\<close>

definition uniform :: "int \<Rightarrow> int \<Rightarrow> rng \<Rightarrow> error + double \<times> rng" where
  "uniform a b g =
     rbind (float_of_int (b - a)) (\<lambda>w.
     rbind (float_of_int a) (\<lambda>a'.
       Inr (fadd a' (fmul w (fst (random_unit g))), snd (random_unit g))))"

text \<open>
  \<open>random.sample(xs, 2)\<close>: two elements at distinct positions, in either order;
  ValueError when \<open>xs\<close> has fewer than two elements.
\<close>

definition sample2 :: "'a list \<Rightarrow> rng \<Rightarrow> error + ('a \<times> 'a) \<times> rng" where
  "sample2 xs g =
     (let n = length xs; k = fst (draw g); i = k mod n; j0 = (k div n) mod (n - 1);
          j = (if j0 < i then j0 else Suc j0)
      in if n < 2 then Inl ValueError else Inr ((xs ! i, xs ! j), snd (draw g)))"

section \<open>SudokuLogic\<close>

text \<open>
  \<open>int(N**0.5)\<close>: the integer part of the square root. The source computes it in
  floating point, which is exact on grid sizes; the model counts the \<open>m\<close> in
  \<open>[1, N]\<close> with \<open>m * m \<le> N\<close>.
\<close>

definition int_sqrt :: "nat \<Rightarrow> nat" where
  "int_sqrt n = length (filter (\<lambda>m. m * m \<le> n) [1..<Suc n])"

definition get_block_dims :: "nat \<Rightarrow> nat \<times> nat" where
  "get_block_dims n = (if n = 6 then (2, 3) else (int_sqrt n, int_sqrt n))"

definition clone_board :: "board \<Rightarrow> board" where
  "clone_board b = map (\<lambda>row. row) b"

text \<open>
  \<open>any(board[i][j] == val for (i, j) in cells)\<close>, and the nested block loop that
  returns at the first hit: the cells are read in order until one holds \<open>val\<close>.
\<close>

fun any_cell_eq :: "board \<Rightarrow> int \<Rightarrow> (int \<times> int) list \<Rightarrow> error + bool" where
  "any_cell_eq b val [] = Inr False"
| "any_cell_eq b val (ij # rest) =
     rbind (cell_at b (fst ij) (snd ij)) (\<lambda>v.
       if v = val then Inr True else any_cell_eq b val rest)"

definition valid_in_cell :: "board \<Rightarrow> int \<Rightarrow> int \<Rightarrow> int \<Rightarrow> error + bool" where
  "valid_in_cell b r c val =
     (let n = length b; br_h = fst (get_block_dims n); bc_w = snd (get_block_dims n)
      in if val = 0 then Inr True
         else rbind (any_cell_eq b val (map (\<lambda>j. (r, int j)) [0..<n])) (\<lambda>in_row.
           if in_row then Inr False
           else rbind (any_cell_eq b val (map (\<lambda>i. (int i, c)) [0..<n])) (\<lambda>in_col.
             if in_col then Inr False
             else if br_h = 0 \<or> bc_w = 0 then Inl ZeroDivisionError
             else
               (let start_r = (r div int br_h) * int br_h;
                    start_c = (c div int bc_w) * int bc_w
                in rbind (any_cell_eq b val
                            (concat (map (\<lambda>i. map (\<lambda>j. (i, j))
                                                  [start_c..start_c + int bc_w - 1])
                                         [start_r..start_r + int br_h - 1])))
                     (\<lambda>in_block. Inr (\<not> in_block))))))"

section \<open>BeliefSpace\<close>

text \<open>
  \<open>global_best_fit\<close> starts as \<open>float('inf')\<close> and holds integers afterwards: an
  extended natural. \<open>global_best\<close> starts as \<open>None\<close>.
\<close>

record belief_space =
  bs_N :: nat
  global_best :: "board option"
  global_best_fit :: enat
  conflict_matrix :: "nat list list"
  row_conflict_scores :: "nat list"

definition new_belief_space :: "nat \<Rightarrow> belief_space" where
  "new_belief_space n =
     \<lparr>bs_N = n, global_best = None, global_best_fit = \<infinity>,
      conflict_matrix = replicate n (replicate n 0),
      row_conflict_scores = replicate n 0\<rparr>"

text \<open>
  The source caches the fitness of a board in a dictionary keyed by the board's identity,
  \<open>fits[id(p)]\<close>. Every board of a population is a fresh object whose entry is written
  when the board enters the population and before it is read, and no board of a
  population is modified in place afterwards. So an individual is modelled as the board
  together with its cached fitness.
\<close>

type_synonym individual = "board \<times> nat"

text \<open>
  \<open>conflict_matrix[r][c] += 1; row_conflict_scores[r] += 1\<close>.
\<close>

definition bump :: "cell \<Rightarrow> belief_space \<Rightarrow> error + belief_space" where
  "bump rc bs =
     (let r = fst rc; c = snd rc; m = conflict_matrix bs; sc = row_conflict_scores bs
      in if r < length m \<and> c < length (m ! r) then
           (if r < length sc then
              Inr (bs\<lparr>conflict_matrix := m[r := (m ! r)[c := Suc (m ! r ! c)]],
                      row_conflict_scores := sc[r := Suc (sc ! r)]\<rparr>)
            else Inl IndexError)
         else Inl IndexError)"

text \<open>Step 1 of \<open>update\<close>: the situational knowledge.\<close>

definition update_global_best :: "belief_space \<Rightarrow> individual \<Rightarrow> belief_space" where
  "update_global_best bs best_elite =
     (if enat (snd best_elite) < global_best_fit bs
      then bs\<lparr>global_best := Some (map (\<lambda>r. r) (fst best_elite)),
              global_best_fit := enat (snd best_elite)\<rparr>
      else bs)"

text \<open>Step 2 of \<open>update\<close>: the conflict matrix is reset, then rebuilt from the elites.\<close>

definition reset_conflicts :: "belief_space \<Rightarrow> belief_space" where
  "reset_conflicts bs =
     bs\<lparr>conflict_matrix := replicate (bs_N bs) (replicate (bs_N bs) 0),
        row_conflict_scores := replicate (bs_N bs) 0\<rparr>"

definition update ::
  "belief_space \<Rightarrow> individual list \<Rightarrow> (board \<Rightarrow> error + cell list) \<Rightarrow> error + belief_space"
where
  "update bs elites get_conflicted_cells_func =
     rbind (py_min snd elites) (\<lambda>best_elite.
       fold_raise
         (\<lambda>ind bs'. rbind (get_conflicted_cells_func (fst ind)) (\<lambda>bad_cells.
                       fold_raise bump bad_cells bs'))
         elites
         (reset_conflicts (update_global_best bs best_elite)))"

text \<open>A sequence of \<open>update\<close> calls on the same belief space.\<close>

fun updates ::
  "belief_space \<Rightarrow> (individual list \<times> (board \<Rightarrow> error + cell list)) list \<Rightarrow> error + belief_space"
where
  "updates bs [] = Inr bs"
| "updates bs (call # calls) = rbind (update bs (fst call) (snd call)) (\<lambda>bs'. updates bs' calls)"

text \<open>
  The roulette wheel of \<open>select_target_row\<close>: the rows are walked with the running sum
  \<open>current\<close>; \<open>None\<close> when no running sum exceeds the drawn value \<open>pick\<close>.
\<close>

fun walk_rows :: "nat list \<Rightarrow> double \<Rightarrow> nat \<Rightarrow> nat list \<Rightarrow> error + nat option" where
  "walk_rows scores pick current [] = Inr None"
| "walk_rows scores pick current (r # rs) =
     rbind (py_index scores (int r)) (\<lambda>sc.
       if int_gt_double (int (current + sc)) pick then Inr (Some r)
       else walk_rows scores pick (current + sc) rs)"

definition random_row :: "belief_space \<Rightarrow> rng \<Rightarrow> error + nat \<times> rng" where
  "random_row bs g =
     rbind (randint 0 (int (bs_N bs) - 1) g) (\<lambda>kg. Inr (nat (fst kg), snd kg))"

text \<open>The part of \<open>select_target_row\<close> that follows the draw of \<open>pick\<close>.\<close>

definition roulette_wheel :: "belief_space \<Rightarrow> double \<Rightarrow> rng \<Rightarrow> error + nat \<times> rng" where
  "roulette_wheel bs pick g =
     rbind (walk_rows (row_conflict_scores bs) pick 0 [0..<bs_N bs]) (\<lambda>found.
       case found of Some r \<Rightarrow> Inr (r, g) | None \<Rightarrow> random_row bs g)"

definition select_target_row :: "belief_space \<Rightarrow> rng \<Rightarrow> error + nat \<times> rng" where
  "select_target_row bs g =
     (let total_conflicts = sum_list (row_conflict_scores bs)
      in if total_conflicts = 0 then random_row bs g
         else rbind (uniform 0 (int total_conflicts) g) (\<lambda>drawn.
                roulette_wheel bs (fst drawn) (snd drawn)))"

section \<open>CulturalSolverImpl\<close>

text \<open>
  The fields of the solver object. \<open>belief_space\<close> is the belief space the object holds
  when \<open>solve_gen\<close> starts; the updated one is carried in the state of the run.
  \<open>pop_size\<close> and \<open>max_iters\<close> are Python integers, \<open>elite_frac\<close> is a finite float.
\<close>

record solver =
  puzzle :: board
  grid_N :: nat
  br_h :: nat
  bc_w :: nat
  pop_size :: int
  elite_frac :: rat
  max_iters :: int
  fixed :: "bool list list"
  missing_map :: "int list list"
  belief_space :: belief_space

text \<open>
  \<open>__init__\<close>. \<open>missing\<close> is built from a Python set, whose order is not fixed by the
  language; the model lists it in ascending order, and its only use shuffles it first.
\<close>

definition row_cells :: "nat \<Rightarrow> nat \<Rightarrow> cell list" where
  "row_cells n r = map (\<lambda>j. (r, j)) [0..<n]"

definition missing_of :: "nat \<Rightarrow> int list \<Rightarrow> int list" where
  "missing_of n row = filter (\<lambda>v. v \<notin> set row - {0}) [1..int n]"

definition init_solver :: "board \<Rightarrow> int \<Rightarrow> rat \<Rightarrow> int \<Rightarrow> error + solver" where
  "init_solver p psize efrac iters =
     (let n = length p
      in rbind (map_raise (\<lambda>i. rbind (read_cells p (row_cells n i))
                                  (\<lambda>vs. Inr (map (\<lambda>v. v \<noteq> 0) vs))) [0..<n]) (\<lambda>fx.
           Inr \<lparr>puzzle = p, grid_N = n,
                br_h = fst (get_block_dims n), bc_w = snd (get_block_dims n),
                pop_size = psize, elite_frac = efrac, max_iters = iters,
                fixed = fx, missing_map = map (missing_of n) p,
                belief_space = new_belief_space n\<rparr>))"

subsection \<open>Groups of cells\<close>

definition col_cells :: "nat \<Rightarrow> nat \<Rightarrow> cell list" where
  "col_cells n c = map (\<lambda>r. (r, c)) [0..<n]"

definition block_cells :: "nat \<Rightarrow> nat \<Rightarrow> nat \<times> nat \<Rightarrow> cell list" where
  "block_cells h w origin =
     concat (map (\<lambda>i. map (\<lambda>j. (i, j)) [snd origin..<snd origin + w])
                 [fst origin..<fst origin + h])"

text \<open>
  The origins \<open>(br, bc)\<close> of the nested \<open>range(0, N, br_h)\<close>, \<open>range(0, N, bc_w)\<close> loops.
  The inner range is built only when the outer one has an element.
\<close>

definition block_origins :: "solver \<Rightarrow> error + (nat \<times> nat) list" where
  "block_origins s =
     rbind (py_range_step (grid_N s) (br_h s)) (\<lambda>brs.
       if brs = [] then Inr []
       else rbind (py_range_step (grid_N s) (bc_w s)) (\<lambda>bcs.
              Inr (concat (map (\<lambda>br. map (\<lambda>bc. (br, bc)) bcs) brs))))"

subsection \<open>fitness\<close>

text \<open>
  One group scanned with the \<open>seen\<close> set: an occurrence counts when its value has been
  seen before in the group. The source adds these to one running counter; the model adds
  up the counts of the groups.
\<close>

fun scan_group :: "int set \<Rightarrow> int list \<Rightarrow> nat" where
  "scan_group seen [] = 0"
| "scan_group seen (v # vs) = (if v \<in> seen then 1 else 0) + scan_group (insert v seen) vs"

definition fitness :: "solver \<Rightarrow> board \<Rightarrow> error + nat" where
  "fitness s board =
     rbind (map_raise (\<lambda>c. read_cells board (col_cells (grid_N s) c)) [0..<grid_N s]) (\<lambda>cols.
     rbind (block_origins s) (\<lambda>origins.
     rbind (map_raise (\<lambda>og. read_cells board (block_cells (br_h s) (bc_w s) og)) origins) (\<lambda>blocks.
       Inr (sum_list (map (scan_group {}) cols) + sum_list (map (scan_group {}) blocks)))))"

subsection \<open>get\_conflicted\_cells\<close>

text \<open>
  \<open>seen.setdefault(val, []).append(loc)\<close> on a dictionary in insertion order.
\<close>

fun add_loc :: "(int \<times> cell list) list \<Rightarrow> int \<Rightarrow> cell \<Rightarrow> (int \<times> cell list) list" where
  "add_loc [] v loc = [(v, [loc])]"
| "add_loc (kl # rest) v loc =
     (if fst kl = v then (fst kl, snd kl @ [loc]) # rest else kl # add_loc rest v loc)"

fun group_by_value ::
  "(int \<times> cell list) list \<Rightarrow> cell list \<Rightarrow> int list \<Rightarrow> (int \<times> cell list) list" where
  "group_by_value seen (loc # locs) (v # vs) = group_by_value (add_loc seen v loc) locs vs"
| "group_by_value seen locs vs = seen"

text \<open>
  \<open>for loc in locs: if not self.fixed[r][c]: conflicts.add(loc)\<close>. The result set is kept as
  a list without repetitions; the order of \<open>list(conflicts)\<close> is that of a Python set and is
  not fixed by the language.
\<close>

fun report_locs :: "bool list list \<Rightarrow> cell list \<Rightarrow> cell list \<Rightarrow> error + cell list" where
  "report_locs fx [] conflicts = Inr conflicts"
| "report_locs fx (loc # locs) conflicts =
     rbind (cell_at fx (int (fst loc)) (int (snd loc))) (\<lambda>is_fixed.
       report_locs fx locs (if is_fixed then conflicts else List.insert loc conflicts))"

fun report_seen ::
  "bool list list \<Rightarrow> (int \<times> cell list) list \<Rightarrow> cell list \<Rightarrow> error + cell list" where
  "report_seen fx [] conflicts = Inr conflicts"
| "report_seen fx (kl # rest) conflicts =
     (if 1 < length (snd kl)
      then rbind (report_locs fx (snd kl) conflicts) (report_seen fx rest)
      else report_seen fx rest conflicts)"

definition group_conflicts :: "solver \<Rightarrow> board \<Rightarrow> cell list \<Rightarrow> cell list \<Rightarrow> error + cell list" where
  "group_conflicts s board cells conflicts =
     rbind (read_cells board cells) (\<lambda>vals.
       report_seen (fixed s) (group_by_value [] cells vals) conflicts)"

definition get_conflicted_cells :: "solver \<Rightarrow> board \<Rightarrow> error + cell list" where
  "get_conflicted_cells s board =
     rbind (fold_raise (\<lambda>c. group_conflicts s board (col_cells (grid_N s) c))
              [0..<grid_N s] []) (\<lambda>conflicts.
     rbind (block_origins s) (\<lambda>origins.
       fold_raise (\<lambda>og. group_conflicts s board (block_cells (br_h s) (bc_w s) og))
         origins conflicts))"

section \<open>Groups of a board\<close>

text \<open>
  The notions in which the properties of \<open>fitness\<close> and \<open>get_conflicted_cells\<close> are
  stated. A solver is tiled when its blocks tile the grid. The groups of a board are the
  value lists of its columns and of its blocks. \<open>repeats\<close> counts, for each value of a
  group, its occurrences but one; \<open>conflicting_occurrences\<close> counts every occurrence of
  each value that occurs more than once.
\<close>

definition tiled :: "solver \<Rightarrow> bool" where
  "tiled s = (0 < br_h s \<and> 0 < bc_w s \<and> br_h s dvd grid_N s \<and> bc_w s dvd grid_N s)"

definition column_values :: "board \<Rightarrow> nat \<Rightarrow> nat \<Rightarrow> int list" where
  "column_values b n c = map (\<lambda>r. b ! r ! c) [0..<n]"

definition block_values :: "board \<Rightarrow> nat \<Rightarrow> nat \<Rightarrow> nat \<times> nat \<Rightarrow> int list" where
  "block_values b h w og = map (\<lambda>rc. b ! fst rc ! snd rc) (block_cells h w og)"

definition tile_origins :: "nat \<Rightarrow> nat \<Rightarrow> nat \<Rightarrow> (nat \<times> nat) list" where
  "tile_origins n h w =
     concat (map (\<lambda>i. map (\<lambda>j. (i * h, j * w)) [0..<n div w]) [0..<n div h])"

definition groups :: "solver \<Rightarrow> board \<Rightarrow> int list list" where
  "groups s b =
     map (column_values b (grid_N s)) [0..<grid_N s]
     @ map (block_values b (br_h s) (bc_w s)) (tile_origins (grid_N s) (br_h s) (bc_w s))"

definition repeats :: "int list \<Rightarrow> nat" where
  "repeats g = (\<Sum>v \<in> set g. count_list g v - 1)"

definition conflicting_occurrences :: "int list \<Rightarrow> nat" where
  "conflicting_occurrences g = (\<Sum>v \<in> set g. if 1 < count_list g v then count_list g v else 0)"

section \<open>Example inputs\<close>

definition solved4 :: board where
  "solved4 = [[1, 2, 3, 4], [3, 4, 1, 2], [2, 1, 4, 3], [4, 3, 2, 1]]"

definition demo_elites :: "individual list" where
  "demo_elites = [([[1, 2], [2, 1]], 3), ([[2, 1], [1, 2]], 1), ([[1, 2], [1, 2]], 1)]"

definition no_conflicts :: "board \<Rightarrow> error + cell list" where
  "no_conflicts b = Inr []"

definition demo_belief :: belief_space where
  "demo_belief = (new_belief_space 3)\<lparr>row_conflict_scores := [0, 2, 1]\<rparr>"

definition clash_puzzle :: board where
  "clash_puzzle = [[2, 1, 0, 0], [0, 0, 0, 0], [2, 1, 0, 0], [0, 0, 0, 0]]"

definition clash_board :: board where
  "clash_board = [[2, 1, 3, 4], [3, 4, 1, 2], [2, 1, 4, 3], [4, 3, 2, 1]]"

definition clash_solver :: solver where
  "clash_solver =
     \<lparr>puzzle = clash_puzzle, grid_N = 4, br_h = 2, bc_w = 2,
      pop_size = 10, elite_frac = 1 / 4, max_iters = 50,
      fixed = [[True, True, False, False], [False, False, False, False],
               [True, True, False, False], [False, False, False, False]],
      missing_map = [[3, 4], [1, 2, 3, 4], [3, 4], [1, 2, 3, 4]],
      belief_space = new_belief_space 4\<rparr>"

section \<open>Basic facts\<close>

lemma rbind_Inr [simp]: "rbind (Inr x) f = f x"
  by (simp add: rbind_def)

lemma rbind_Inl [simp]: "rbind (Inl e) f = Inl e"
  by (simp add: rbind_def)

lemma rbind_eq_Inr:
  "rbind m f = Inr y \<longleftrightarrow> (\<exists>x. m = Inr x \<and> f x = Inr y)"
  by (cases m) simp_all

lemma py_index_nat:
  "i < length xs \<Longrightarrow> py_index xs (int i) = Inr (xs ! i)"
  by (simp add: py_index_def)

lemma py_index_nat_out:
  "length xs \<le> i \<Longrightarrow> py_index xs (int i) = Inl IndexError"
  by (simp add: py_index_def)

lemma py_index_Inr:
  assumes "py_index xs i = Inr v"
  obtains k where "k < length xs" and "xs ! k = v" and "py_index xs (int k) = Inr v"
proof -
  let ?j = "if i < 0 then i + int (length xs) else i"
  from assms have j: "0 \<le> ?j" "?j < int (length xs)" and v: "xs ! nat ?j = v"
    by (auto simp: py_index_def Let_def split: if_splits)
  have "nat ?j < length xs" using j by linarith
  moreover have "py_index xs (int (nat ?j)) = Inr v"
    using j v by (simp add: py_index_def)
  ultimately show thesis using v that by blast
qed

lemma cell_at_nat:
  "r < length b \<Longrightarrow> c < length (b ! r) \<Longrightarrow> cell_at b (int r) (int c) = Inr (b ! r ! c)"
  by (simp add: cell_at_def py_index_nat)

lemma square_nth:
  "square n b \<Longrightarrow> r < n \<Longrightarrow> length (b ! r) = n"
  by (auto simp: square_def list_all_length)

lemma square_length: "square n b \<Longrightarrow> length b = n"
  by (simp add: square_def)

lemma cell_at_square:
  "square n b \<Longrightarrow> r < n \<Longrightarrow> c < n \<Longrightarrow> cell_at b (int r) (int c) = Inr (b ! r ! c)"
  by (simp add: cell_at_nat square_nth square_length)

lemma read_cells_ok:
  "\<forall>rc \<in> set cs. fst rc < length b \<and> snd rc < length (b ! fst rc) \<Longrightarrow>
   read_cells b cs = Inr (map (\<lambda>rc. b ! fst rc ! snd rc) cs)"
  unfolding read_cells_def by (induction cs) (simp_all add: cell_at_nat)

lemma read_cells_square:
  "square n b \<Longrightarrow> \<forall>rc \<in> set cs. fst rc < n \<and> snd rc < n \<Longrightarrow>
   read_cells b cs = Inr (map (\<lambda>rc. b ! fst rc ! snd rc) cs)"
  by (rule read_cells_ok) (auto simp: square_nth square_length)

section \<open>The validity check reports the value already present\<close>

lemma any_cell_eq_hit:
  assumes "\<forall>ij \<in> set cells. \<exists>v. cell_at b (fst ij) (snd ij) = Inr v"
    and "\<exists>ij \<in> set cells. cell_at b (fst ij) (snd ij) = Inr val"
  shows "any_cell_eq b val cells = Inr True"
  using assms
proof (induction cells)
  case Nil
  then show ?case by simp
next
  case (Cons ij rest)
  from Cons.prems(1) obtain v where v: "cell_at b (fst ij) (snd ij) = Inr v"
    by auto
  show ?case
  proof (cases "v = val")
    case True
    with v show ?thesis by simp
  next
    case False
    with v Cons.prems(2) have "\<exists>ij \<in> set rest. cell_at b (fst ij) (snd ij) = Inr val"
      by auto
    with Cons.IH Cons.prems(1) have "any_cell_eq b val rest = Inr True"
      by simp
    with v False show ?thesis by simp
  qed
qed

lemma row_scan_hit:
  assumes sq: "square (length b) b" and at: "cell_at b r c = Inr val"
  shows "any_cell_eq b val (map (\<lambda>j. (r, int j)) [0..<length b]) = Inr True"
proof -
  from at obtain row where row: "py_index b r = Inr row" and col: "py_index row c = Inr val"
    by (auto simp: cell_at_def rbind_eq_Inr)
  from row obtain k where k: "k < length b" "b ! k = row"
    by (rule py_index_Inr)
  from sq k have len: "length row = length b"
    by (auto simp: square_nth)
  from col obtain j where j: "j < length row" "py_index row (int j) = Inr val"
    by (rule py_index_Inr)
  have all: "\<forall>ij \<in> set (map (\<lambda>j. (r, int j)) [0..<length b]).
               \<exists>v. cell_at b (fst ij) (snd ij) = Inr v"
    using row len by (auto simp: cell_at_def py_index_nat)
  have hit: "\<exists>ij \<in> set (map (\<lambda>j. (r, int j)) [0..<length b]).
               cell_at b (fst ij) (snd ij) = Inr val"
    using row j len by (auto simp: cell_at_def intro!: bexI [of _ j])
  from all hit show ?thesis by (rule any_cell_eq_hit)
qed

text \<open>
  C10. On every N by N board, a nonzero value that already stands at cell \<open>(r, c)\<close> is
  reported as invalid there, because the row scan meets the queried cell itself; the
  value 0 is always reported as valid.
\<close>

theorem valid_in_cell_self_occlusion:
  "(square (length b) b \<and> cell_at b r c = Inr val \<and> val \<noteq> 0
      \<longrightarrow> valid_in_cell b r c val = Inr False)
   \<and> valid_in_cell b r c 0 = Inr True"
proof (intro conjI impI)
  assume h: "square (length b) b \<and> cell_at b r c = Inr val \<and> val \<noteq> 0"
  then have "any_cell_eq b val (map (\<lambda>j. (r, int j)) [0..<length b]) = Inr True"
    using row_scan_hit by blast
  with h show "valid_in_cell b r c val = Inr False"
    by (simp add: valid_in_cell_def Let_def)
next
  show "valid_in_cell b r c 0 = Inr True"
    by (simp add: valid_in_cell_def Let_def)
qed

theorem valid_in_cell_self_occlusion_witness:
  "square (length solved4) solved4
   \<and> cell_at solved4 1 2 = Inr 1
   \<and> (1 :: int) \<noteq> 0
   \<and> valid_in_cell solved4 1 2 1 = Inr False
   \<and> valid_in_cell solved4 1 2 0 = Inr True"
proof -
  have sq: "square (length solved4) solved4"
    by (simp add: square_def solved4_def)
  have at: "cell_at solved4 1 2 = Inr 1"
    by (simp add: cell_at_def py_index_def solved4_def)
  show ?thesis
    using valid_in_cell_self_occlusion [of solved4 1 2 1] sq at by simp
qed

section \<open>The global best of the belief space only improves\<close>

lemma fold_raise_invariant:
  assumes "\<And>x a a'. x \<in> set xs \<Longrightarrow> P a \<Longrightarrow> f x a = Inr a' \<Longrightarrow> P a'"
    and "P acc" and "fold_raise f xs acc = Inr r"
  shows "P r"
  using assms
proof (induction xs arbitrary: acc)
  case Nil
  then show ?case by simp
next
  case (Cons x xs)
  from Cons.prems(3) obtain a where a: "f x acc = Inr a" and r: "fold_raise f xs a = Inr r"
    by (auto simp: rbind_eq_Inr)
  have "P a" using Cons.prems(1) [of x acc a] Cons.prems(2) a by simp
  show ?case
  proof (rule Cons.IH [of a])
    show "P a" by fact
    show "fold_raise f xs a = Inr r" by fact
    show "P a2" if "y \<in> set xs" "P a1" "f y a1 = Inr a2" for y a1 a2
      using Cons.prems(1) [of y a1 a2] that by simp
  qed
qed

lemma bump_keeps_best:
  "bump rc bs = Inr bs' \<Longrightarrow>
   global_best bs' = global_best bs \<and> global_best_fit bs' = global_best_fit bs"
  by (auto simp: bump_def Let_def split: if_splits)

lemma min_by_in: "min_by key best xs \<in> set (best # xs)"
  by (induction xs arbitrary: best) auto

lemma min_by_le: "x \<in> set (best # xs) \<Longrightarrow> key (min_by key best xs) \<le> key x"
proof (induction xs arbitrary: best x)
  case Nil
  then show ?case by simp
next
  case (Cons y ys)
  let ?b = "if key y < key best then y else best"
  have m: "key (min_by key ?b ys) \<le> key ?b"
    by (rule Cons.IH) simp
  have b1: "key ?b \<le> key best" and b2: "key ?b \<le> key y" by auto
  from Cons.prems consider "x = best" | "x = y" | "x \<in> set ys" by auto
  then show ?case
  proof cases
    case 1
    from m b1 have "key (min_by key ?b ys) \<le> key best" by (rule order_trans)
    with 1 show ?thesis by simp
  next
    case 2
    from m b2 have "key (min_by key ?b ys) \<le> key y" by (rule order_trans)
    with 2 show ?thesis by simp
  next
    case 3
    then have "key (min_by key ?b ys) \<le> key x" by (intro Cons.IH) simp
    then show ?thesis by simp
  qed
qed

lemma py_min_Inr:
  assumes "py_min key xs = Inr b"
  shows "b \<in> set xs \<and> (\<forall>x \<in> set xs. key b \<le> key x)"
proof (cases xs)
  case Nil
  with assms show ?thesis by (simp add: py_min_def)
next
  case (Cons y ys)
  with assms have b: "b = min_by key y ys" by (simp add: py_min_def)
  have "b \<in> set xs" unfolding b Cons by (rule min_by_in)
  moreover have "key b \<le> key x" if "x \<in> set xs" for x
    using that unfolding b Cons by (rule min_by_le)
  ultimately show ?thesis by simp
qed

lemma update_global_best_le:
  "global_best_fit (update_global_best bs e) \<le> global_best_fit bs"
  by (simp add: update_global_best_def less_imp_le)

lemma update_Inr:
  assumes "update bs elites f = Inr bs'"
  obtains best where "py_min snd elites = Inr best"
    and "global_best bs' = global_best (update_global_best bs best)"
    and "global_best_fit bs' = global_best_fit (update_global_best bs best)"
proof -
  from assms obtain best where best: "py_min snd elites = Inr best"
    and fold: "fold_raise
         (\<lambda>ind bs'. rbind (f (fst ind)) (\<lambda>bad_cells. fold_raise bump bad_cells bs'))
         elites (reset_conflicts (update_global_best bs best)) = Inr bs'"
    by (auto simp: update_def rbind_eq_Inr)
  let ?P = "\<lambda>b. global_best b = global_best (update_global_best bs best)
               \<and> global_best_fit b = global_best_fit (update_global_best bs best)"
  have inner: "?P a'" if "?P a" and "fold_raise bump cells a = Inr a'" for cells a a'
  proof (rule fold_raise_invariant [where P = ?P and f = bump and xs = cells and acc = a])
    show "?P a" by fact
    show "fold_raise bump cells a = Inr a'" by fact
    show "?P a2" if "?P a1" "bump x a1 = Inr a2" for x a1 a2
      using that bump_keeps_best [of x a1 a2] by simp
  qed
  have "?P bs'"
  proof (rule fold_raise_invariant [where P = ?P, OF _ _ fold])
    show "?P (reset_conflicts (update_global_best bs best))"
      by (simp add: reset_conflicts_def)
  next
    fix x a a'
    assume pa: "?P a"
      and "rbind (f (fst x)) (\<lambda>bad_cells. fold_raise bump bad_cells a) = Inr a'"
    then obtain cells where "fold_raise bump cells a = Inr a'"
      unfolding rbind_eq_Inr by blast
    with pa show "?P a'" by (rule inner)
  qed
  then have "global_best bs' = global_best (update_global_best bs best)"
    and "global_best_fit bs' = global_best_fit (update_global_best bs best)"
    by simp_all
  with best show thesis by (rule that)
qed

lemma update_le:
  "update bs elites f = Inr bs' \<Longrightarrow> global_best_fit bs' \<le> global_best_fit bs"
  by (erule update_Inr) (simp add: update_global_best_le)

lemma updates_le:
  "updates bs calls = Inr bs' \<Longrightarrow> global_best_fit bs' \<le> global_best_fit bs"
proof (induction calls arbitrary: bs)
  case Nil
  then show ?case by simp
next
  case (Cons call calls)
  then obtain b1 where "update bs (fst call) (snd call) = Inr b1" "updates b1 calls = Inr bs'"
    by (auto simp: rbind_eq_Inr)
  then have "global_best_fit bs' \<le> global_best_fit b1" "global_best_fit b1 \<le> global_best_fit bs"
    using Cons.IH [of b1] update_le [of bs "fst call" "snd call" b1] by simp_all
  then show ?case by (rule order_trans)
qed

text \<open>
  C4. Over any sequence of \<open>update\<close> calls \<open>global_best_fit\<close> never increases. One
  call replaces it, together with a copy of the board of the first elite of minimal
  cached fitness, exactly when that minimal fitness is strictly below the current
  \<open>global_best_fit\<close>; otherwise both fields are unchanged.
\<close>

theorem global_best_ratchet:
  "(updates bs calls = Inr bs' \<longrightarrow> global_best_fit bs' \<le> global_best_fit bs)
   \<and> (update bs elites f = Inr bs1 \<longrightarrow>
        (\<exists>best \<in> set elites.
           (\<forall>e \<in> set elites. snd best \<le> snd e) \<and>
           (if enat (snd best) < global_best_fit bs
            then global_best_fit bs1 = enat (snd best) \<and> global_best bs1 = Some (fst best)
            else global_best_fit bs1 = global_best_fit bs \<and> global_best bs1 = global_best bs)))"
proof (intro conjI impI)
  assume "updates bs calls = Inr bs'"
  then show "global_best_fit bs' \<le> global_best_fit bs" by (rule updates_le)
next
  assume "update bs elites f = Inr bs1"
  then obtain best where best: "py_min snd elites = Inr best"
    and gb: "global_best bs1 = global_best (update_global_best bs best)"
    and gf: "global_best_fit bs1 = global_best_fit (update_global_best bs best)"
    by (rule update_Inr)
  from best have "best \<in> set elites" "\<forall>e \<in> set elites. snd best \<le> snd e"
    using py_min_Inr [of snd elites best] by auto
  moreover have "if enat (snd best) < global_best_fit bs
            then global_best_fit bs1 = enat (snd best) \<and> global_best bs1 = Some (fst best)
            else global_best_fit bs1 = global_best_fit bs \<and> global_best bs1 = global_best bs"
    using gb gf by (simp add: update_global_best_def)
  ultimately show "\<exists>best \<in> set elites.
           (\<forall>e \<in> set elites. snd best \<le> snd e) \<and>
           (if enat (snd best) < global_best_fit bs
            then global_best_fit bs1 = enat (snd best) \<and> global_best bs1 = Some (fst best)
            else global_best_fit bs1 = global_best_fit bs \<and> global_best bs1 = global_best bs)"
    by blast
qed


theorem global_best_ratchet_witness:
  "update (new_belief_space 2) demo_elites no_conflicts
     = Inr ((new_belief_space 2)\<lparr>global_best := Some [[2, 1], [1, 2]], global_best_fit := enat 1\<rparr>)
   \<and> updates (new_belief_space 2) [(demo_elites, no_conflicts)]
     = Inr ((new_belief_space 2)\<lparr>global_best := Some [[2, 1], [1, 2]], global_best_fit := enat 1\<rparr>)
   \<and> global_best_fit ((new_belief_space 2)\<lparr>global_best := Some [[2, 1], [1, 2]],
                                             global_best_fit := enat 1\<rparr>)
       \<le> global_best_fit (new_belief_space 2)
   \<and> (\<exists>best \<in> set demo_elites. snd best = 1
        \<and> enat (snd best) < global_best_fit (new_belief_space 2))"
proof -
  let ?r = "(new_belief_space 2)\<lparr>global_best := Some [[2, 1], [1, 2]], global_best_fit := enat 1\<rparr>"
  have u: "update (new_belief_space 2) demo_elites no_conflicts = Inr ?r"
    by (simp add: update_def py_min_def demo_elites_def no_conflicts_def
        update_global_best_def reset_conflicts_def new_belief_space_def)
  then have us: "updates (new_belief_space 2) [(demo_elites, no_conflicts)] = Inr ?r"
    by simp
  have ex: "\<exists>best \<in> set demo_elites. snd best = 1
        \<and> enat (snd best) < global_best_fit (new_belief_space 2)"
    by (simp add: demo_elites_def new_belief_space_def)
  show ?thesis
    using global_best_ratchet
      [of "new_belief_space 2" "[(demo_elites, no_conflicts)]" ?r demo_elites no_conflicts ?r]
      u us ex
    by simp
qed

section \<open>Roulette-wheel selection of the row to mutate\<close>

lemma sum_take_Suc:
  "i < length (scores :: nat list) \<Longrightarrow> sum_list (take (Suc i) scores) = sum_list (take i scores) + scores ! i"
  by (simp add: take_Suc_conv_app_nth)

lemma walk_rows_step:
  "i < n \<Longrightarrow> n \<le> length scores \<Longrightarrow>
   walk_rows scores (Finite pick) (sum_list (take i scores)) [i..<n] =
     (if pick < of_nat (sum_list (take (Suc i) scores)) then Inr (Some i)
      else walk_rows scores (Finite pick) (sum_list (take (Suc i) scores)) [Suc i..<n])"
  by (simp add: upt_conv_Cons py_index_nat sum_take_Suc int_gt_double_def)

lemma walk_rows_Some:
  assumes "n \<le> length scores" and "r < n" and "i \<le> r"
    and "pick < of_nat (sum_list (take (Suc r) scores))"
    and "\<And>j. i \<le> j \<Longrightarrow> j < r \<Longrightarrow> of_nat (sum_list (take (Suc j) scores)) \<le> pick"
  shows "walk_rows scores (Finite pick) (sum_list (take i scores)) [i..<n] = Inr (Some r)"
  using assms
proof (induction "r - i" arbitrary: i)
  case 0
  then have ir: "i = r" by simp
  show ?case
    using walk_rows_step [of r n scores pick] 0(3,2,5) unfolding ir by simp
next
  case (Suc d)
  then have lt: "i < r" by simp
  have no: "\<not> pick < of_nat (sum_list (take (Suc i) scores))"
    using Suc.prems(5) [of i] lt by simp
  have rec: "walk_rows scores (Finite pick) (sum_list (take (Suc i) scores)) [Suc i..<n] = Inr (Some r)"
  proof (rule Suc.hyps(1))
    show "d = r - Suc i" using Suc.hyps(2) by simp
    show "n \<le> length scores" by (rule Suc.prems(1))
    show "r < n" by (rule Suc.prems(2))
    show "Suc i \<le> r" using lt by simp
    show "pick < of_nat (sum_list (take (Suc r) scores))" by (rule Suc.prems(4))
    show "\<And>j. Suc i \<le> j \<Longrightarrow> j < r \<Longrightarrow> of_nat (sum_list (take (Suc j) scores)) \<le> pick"
      using Suc.prems(5) by simp
  qed
  have "i < n" using lt Suc.prems(2) by simp
  then show ?case
    using walk_rows_step [of i n scores pick] Suc.prems(1) no rec by simp
qed

lemma first_exceeding:
  fixes pick :: rat
  assumes "pick < of_nat (sum_list scores)" and "0 \<le> pick"
  obtains r where "r < length scores"
    and "pick < of_nat (sum_list (take (Suc r) scores))"
    and "\<And>j. j < r \<Longrightarrow> of_nat (sum_list (take (Suc j) scores)) \<le> pick"
    and "0 < scores ! r"
proof -
  let ?P = "\<lambda>r. pick < of_nat (sum_list (take (Suc r) scores))"
  define r where "r = (LEAST r. ?P r)"
  have ne: "scores \<noteq> []" using assms by auto
  have top: "?P (length scores - 1)" using assms ne by simp
  then have pr: "?P r" unfolding r_def by (rule LeastI)
  have le: "r \<le> length scores - 1" unfolding r_def using top by (rule Least_le)
  then have rl: "r < length scores" using ne by (cases scores) auto
  have below: "\<And>j. j < r \<Longrightarrow> of_nat (sum_list (take (Suc j) scores)) \<le> pick"
  proof -
    fix j assume "j < r"
    then have "\<not> ?P j" unfolding r_def by (rule not_less_Least)
    then show "of_nat (sum_list (take (Suc j) scores)) \<le> pick" by simp
  qed
  have prev: "of_nat (sum_list (take r scores)) \<le> pick"
  proof (cases r)
    case 0 then show ?thesis using assms(2) by simp
  next
    case (Suc k) then show ?thesis using below [of k] by simp
  qed
  have "of_nat (sum_list (take r scores)) < (of_nat (sum_list (take (Suc r) scores)) :: rat)"
    using prev pr by (rule le_less_trans)
  then have "sum_list (take r scores) < sum_list (take (Suc r) scores)"
    by (simp only: of_nat_less_iff)
  then have pos: "0 < scores ! r" using rl by (simp add: sum_take_Suc)
  show thesis using rl pr below pos by (rule that)
qed

lemma random_row_eq:
  "0 < bs_N bs \<Longrightarrow> random_row bs g = Inr (fst (draw g) mod bs_N bs, snd (draw g))"
  by (simp add: random_row_def randint_def nat_mod_distrib zmod_int)

text \<open>
  C8. In a belief space that holds one score per row: when the scores sum to zero,
  \<open>select_target_row\<close> returns the row index that \<open>random.randint(0, N - 1)\<close> draws, an
  index below \<open>N\<close>, and every index below \<open>N\<close> is returned for some draw. Otherwise, for
  every value \<open>u\<close> with \<open>0 \<le> u < total\<close>, the wheel returns the first row at which the
  running sum of the scores exceeds \<open>u\<close>, a row with a positive score, and this row is the
  result of \<open>select_target_row\<close> whenever \<open>random.uniform(0, total)\<close> draws \<open>u\<close>.
\<close>

theorem select_target_row_roulette:
  "length (row_conflict_scores bs) = bs_N bs \<longrightarrow>
   (sum_list (row_conflict_scores bs) = 0 \<and> 0 < bs_N bs \<longrightarrow>
      select_target_row bs g = Inr (fst (draw g) mod bs_N bs, snd (draw g))
      \<and> fst (draw g) mod bs_N bs < bs_N bs
      \<and> (\<forall>r < bs_N bs. select_target_row bs [r] = Inr (r, [])))
   \<and> (0 \<le> u \<and> u < of_nat (sum_list (row_conflict_scores bs)) \<longrightarrow>
      (\<exists>r < bs_N bs.
         roulette_wheel bs (Finite u) g1 = Inr (r, g1)
         \<and> (uniform 0 (int (sum_list (row_conflict_scores bs))) g = Inr (Finite u, g1) \<longrightarrow>
              select_target_row bs g = Inr (r, g1))
         \<and> u < of_nat (sum_list (take (Suc r) (row_conflict_scores bs)))
         \<and> (\<forall>j < r. of_nat (sum_list (take (Suc j) (row_conflict_scores bs))) \<le> u)
         \<and> 0 < row_conflict_scores bs ! r))"
proof (intro impI conjI)
  assume len: "length (row_conflict_scores bs) = bs_N bs"
    and z: "sum_list (row_conflict_scores bs) = 0 \<and> 0 < bs_N bs"
  show "select_target_row bs g = Inr (fst (draw g) mod bs_N bs, snd (draw g))"
    using z by (simp add: select_target_row_def random_row_eq)
  show "fst (draw g) mod bs_N bs < bs_N bs" using z by simp
  show "\<forall>r < bs_N bs. select_target_row bs [r] = Inr (r, [])"
    using z by (simp add: select_target_row_def random_row_eq draw_def)
next
  let ?sc = "row_conflict_scores bs"
  assume len: "length ?sc = bs_N bs"
    and p: "0 \<le> u \<and> u < of_nat (sum_list ?sc)"
  from p obtain r where r: "r < length ?sc"
    and hit: "u < of_nat (sum_list (take (Suc r) ?sc))"
    and below: "\<And>j. j < r \<Longrightarrow> of_nat (sum_list (take (Suc j) ?sc)) \<le> u"
    and pos: "0 < ?sc ! r"
    using first_exceeding [of u ?sc] by blast
  have w: "walk_rows ?sc (Finite u) (sum_list (take 0 ?sc)) [0..<bs_N bs] = Inr (Some r)"
  proof (rule walk_rows_Some)
    show "bs_N bs \<le> length ?sc" using len by simp
    show "r < bs_N bs" using r len by simp
    show "0 \<le> r" by simp
    show "u < of_nat (sum_list (take (Suc r) ?sc))" by (rule hit)
    show "\<And>j. 0 \<le> j \<Longrightarrow> j < r \<Longrightarrow> of_nat (sum_list (take (Suc j) ?sc)) \<le> u"
      by (rule below)
  qed
  then have wheel: "roulette_wheel bs (Finite u) g1 = Inr (r, g1)"
    by (simp add: roulette_wheel_def)
  have pos_total: "sum_list ?sc \<noteq> 0"
  proof
    assume "sum_list ?sc = 0"
    with p show False by auto
  qed
  have sel: "uniform 0 (int (sum_list ?sc)) g = Inr (Finite u, g1) \<longrightarrow>
             select_target_row bs g = Inr (r, g1)"
  proof
    assume "uniform 0 (int (sum_list ?sc)) g = Inr (Finite u, g1)"
    then show "select_target_row bs g = Inr (r, g1)"
      using pos_total wheel
      by (simp add: select_target_row_def Let_def del: sum_list_eq_0_iff)
  qed
  show "\<exists>r < bs_N bs.
         roulette_wheel bs (Finite u) g1 = Inr (r, g1)
         \<and> (uniform 0 (int (sum_list ?sc)) g = Inr (Finite u, g1) \<longrightarrow>
              select_target_row bs g = Inr (r, g1))
         \<and> u < of_nat (sum_list (take (Suc r) ?sc))
         \<and> (\<forall>j < r. of_nat (sum_list (take (Suc j) ?sc)) \<le> u)
         \<and> 0 < ?sc ! r"
    using r len wheel sel hit below pos by auto
qed

theorem select_target_row_roulette_witness:
  "length (row_conflict_scores demo_belief) = bs_N demo_belief
   \<and> (0 :: rat) \<le> 2 \<and> 2 < rat_of_nat (sum_list (row_conflict_scores demo_belief))
   \<and> uniform 0 (int (sum_list (row_conflict_scores demo_belief))) [6004799503160661]
       = Inr (Finite 2, [])
   \<and> roulette_wheel demo_belief (Finite 2) [] = Inr (2, [])
   \<and> select_target_row demo_belief [6004799503160661] = Inr (2, [])"
proof -
  have a: "length (row_conflict_scores demo_belief) = bs_N demo_belief"
    by code_simp
  have b: "(0 :: rat) \<le> 2 \<and> 2 < rat_of_nat (sum_list (row_conflict_scores demo_belief))"
    by (simp add: demo_belief_def)
  have r: "random_unit [6004799503160661] = (6004799503160661 / 2 ^ 53, [])"
    by (simp add: random_unit_def draw_def)
  have m: "fmul 3 (fst (random_unit [6004799503160661])) = Finite 2"
    unfolding r by code_simp
  have f: "float_of_int 3 = Inr 3" "float_of_int 0 = Inr 0"
    by code_simp+
  have s: "fadd 0 (Finite 2) = Finite 2" "snd (random_unit [6004799503160661]) = []"
    by code_simp (simp add: r)
  have c: "uniform 0 (int (sum_list (row_conflict_scores demo_belief))) [6004799503160661]
       = Inr (Finite 2, [])"
    by (simp add: demo_belief_def uniform_def m f s)
  have d: "roulette_wheel demo_belief (Finite 2) [] = Inr (2, [])"
    by code_simp
  show ?thesis
    using select_target_row_roulette [of demo_belief "[6004799503160661]" 2 "[]"] a b c d
    by auto
qed

section \<open>What fitness counts\<close>

lemma clash_solver_init: "init_solver clash_puzzle 10 (1 / 4) 50 = Inr clash_solver"
  by code_simp

lemma map_raise_ok:
  "(\<And>x. x \<in> set xs \<Longrightarrow> f x = Inr (g x)) \<Longrightarrow> map_raise f xs = Inr (map g xs)"
  by (induction xs) simp_all

lemma scan_group_card:
  "scan_group seen vs + card (set vs - seen) = length vs"
proof (induction vs arbitrary: seen)
  case Nil
  show ?case by simp
next
  case (Cons v vs)
  show ?case
  proof (cases "v \<in> seen")
    case True
    then have "insert v seen = seen" "set (v # vs) - seen = set vs - seen" by auto
    then show ?thesis using Cons [of seen] True by simp
  next
    case False
    have eq: "set (v # vs) - seen = insert v (set vs - insert v seen)" using False by auto
    have "card (set (v # vs) - seen) = Suc (card (set vs - insert v seen))"
      unfolding eq by (rule card_insert_disjoint) auto
    then show ?thesis using Cons [of "insert v seen"] False by simp
  qed
qed

lemma scan_group_empty: "scan_group {} vs = length vs - card (set vs)"
  using scan_group_card [of "{}" vs] by simp

lemma count_list_pos: "v \<in> set g \<Longrightarrow> 1 \<le> count_list g v"
  by (induction g) auto

lemma repeats_eq: "repeats g = length g - card (set g)"
proof -
  have "repeats g = sum (count_list g) (set g) - (\<Sum>v \<in> set g. 1)"
    unfolding repeats_def by (rule sum_subtractf_nat) (rule count_list_pos)
  then show ?thesis by (simp add: sum_count_set)
qed

lemma scan_group_repeats: "scan_group {} = repeats"
  by (rule ext) (simp add: scan_group_empty repeats_eq)

lemma range_step_dvd:
  assumes "0 < h" and "h dvd n"
  shows "py_range_step n h = Inr (map (\<lambda>k. k * h) [0..<n div h])"
proof -
  from assms(2) obtain q where q: "n = h * q" by (rule dvdE)
  have "(h * q + (h - 1)) div h = q + (h - 1) div h"
    using assms(1) by (simp only: div_mult_self4 [of h q "h - 1"])
  then have "(n + h - 1) div h = n div h" using assms(1) q by simp
  then show ?thesis using assms(1) by (simp add: py_range_step_def)
qed

lemma block_origins_tiled:
  "tiled s \<Longrightarrow> block_origins s = Inr (tile_origins (grid_N s) (br_h s) (bc_w s))"
  by (simp add: tiled_def block_origins_def range_step_dvd tile_origins_def comp_def)

lemma tile_bound:
  assumes "i < n div h"
  shows "i * h + h \<le> (n :: nat)"
proof -
  have "Suc i \<le> n div h" using assms by simp
  then have "Suc i * h \<le> (n div h) * h" by (rule mult_le_mono1)
  also have "\<dots> \<le> n" by simp
  finally show ?thesis by simp
qed

lemma block_cells_in_range:
  assumes "og \<in> set (tile_origins n h w)" and "rc \<in> set (block_cells h w og)"
  shows "fst rc < n \<and> snd rc < n"
proof -
  from assms(1) obtain i j where i: "i < n div h" and j: "j < n div w"
    and og: "og = (i * h, j * w)"
    by (auto simp: tile_origins_def)
  from assms(2) have "fst rc < i * h + h" "snd rc < j * w + w"
    by (auto simp: block_cells_def og)
  then show ?thesis using tile_bound [OF i] tile_bound [OF j] by simp
qed

lemma read_columns:
  assumes "square n b"
  shows "map_raise (\<lambda>c. read_cells b (col_cells n c)) [0..<n] = Inr (map (column_values b n) [0..<n])"
proof (rule map_raise_ok)
  fix c assume "c \<in> set [0..<n]"
  then have "\<forall>rc \<in> set (col_cells n c). fst rc < n \<and> snd rc < n"
    by (auto simp: col_cells_def)
  with assms have "read_cells b (col_cells n c) = Inr (map (\<lambda>rc. b ! fst rc ! snd rc) (col_cells n c))"
    by (rule read_cells_square)
  then show "read_cells b (col_cells n c) = Inr (column_values b n c)"
    by (simp add: col_cells_def column_values_def comp_def)
qed

lemma read_blocks:
  assumes "square n b"
  shows "map_raise (\<lambda>og. read_cells b (block_cells h w og)) (tile_origins n h w)
           = Inr (map (block_values b h w) (tile_origins n h w))"
proof (rule map_raise_ok)
  fix og assume "og \<in> set (tile_origins n h w)"
  then have "\<forall>rc \<in> set (block_cells h w og). fst rc < n \<and> snd rc < n"
    using block_cells_in_range by blast
  with assms show "read_cells b (block_cells h w og) = Inr (block_values b h w og)"
    unfolding block_values_def by (rule read_cells_square)
qed

lemma fitness_tiled:
  "tiled s \<Longrightarrow> square (grid_N s) b \<Longrightarrow>
   fitness s b = Inr (sum_list (map repeats (groups s b)))"
  by (simp add: fitness_def read_columns block_origins_tiled read_blocks groups_def
      scan_group_repeats)

lemma count_list_distinct: "distinct g \<Longrightarrow> v \<in> set g \<Longrightarrow> count_list g v = 1"
  by (induction g) (auto simp: count_list_0_iff)

lemma repeated_value: "\<not> distinct g \<Longrightarrow> \<exists>v \<in> set g. 1 < count_list g v"
proof (induction g)
  case Nil
  then show ?case by simp
next
  case (Cons x xs)
  show ?case
  proof (cases "x \<in> set xs")
    case True
    then have "1 \<le> count_list xs x" by (rule count_list_pos)
    then have "1 < count_list (x # xs) x" by simp
    then show ?thesis by (intro bexI [of _ x]) simp_all
  next
    case False
    with Cons.prems have "\<not> distinct xs" by simp
    then obtain v where v: "v \<in> set xs" "1 < count_list xs v" using Cons.IH by blast
    then have "1 < count_list (x # xs) v" by simp
    with v(1) show ?thesis by (intro bexI [of _ v]) simp_all
  qed
qed

lemma repeats_distinct: "repeats g = conflicting_occurrences g \<longleftrightarrow> distinct g"
proof
  assume eq: "repeats g = conflicting_occurrences g"
  show "distinct g"
  proof (rule ccontr)
    assume "\<not> distinct g"
    then have ex: "\<exists>v \<in> set g. count_list g v - 1 < (if 1 < count_list g v then count_list g v else 0)"
      using repeated_value [of g] by auto
    have le: "\<forall>v \<in> set g. count_list g v - 1 \<le> (if 1 < count_list g v then count_list g v else 0)"
      by auto
    have "repeats g < conflicting_occurrences g"
      unfolding repeats_def conflicting_occurrences_def
      using _ le ex by (rule sum_strict_mono_ex1) simp
    with eq show False by simp
  qed
next
  assume "distinct g"
  then show "repeats g = conflicting_occurrences g"
    by (simp add: repeats_def conflicting_occurrences_def count_list_distinct)
qed

text \<open>
  C2. On a tiled solver and a square board, \<open>fitness\<close> is the sum over all columns and
  all blocks of the repeated occurrences: a value occurring \<open>k\<close> times in a group
  contributes \<open>k - 1\<close>, so a group contributes its length less the number of its distinct
  values. This differs from counting all \<open>k\<close> occurrences on every group that has a
  repeated value.
\<close>

theorem fitness_counts_repeats:
  "(tiled s \<and> square (grid_N s) b \<longrightarrow>
      fitness s b = Inr (sum_list (map repeats (groups s b))))
   \<and> repeats g = length g - card (set g)
   \<and> (repeats g = conflicting_occurrences g \<longleftrightarrow> distinct g)"
  using fitness_tiled [of s b] repeats_eq [of g] repeats_distinct [of g] by blast

theorem fitness_counts_repeats_witness:
  "tiled clash_solver \<and> square (grid_N clash_solver) clash_board
   \<and> fitness clash_solver clash_board
       = Inr (sum_list (map repeats (groups clash_solver clash_board)))
   \<and> sum_list (map repeats (groups clash_solver clash_board)) = 2"
proof -
  have a: "tiled clash_solver" by code_simp
  have b: "square (grid_N clash_solver) clash_board" by code_simp
  have c: "sum_list (map repeats (groups clash_solver clash_board)) = 2" by code_simp
  show ?thesis
    using fitness_counts_repeats [of clash_solver clash_board] a b c by simp
qed

theorem fitness_counts_all_occurrences_counterexample:
  "tiled clash_solver \<and> square (grid_N clash_solver) clash_board
   \<and> fitness clash_solver clash_board = Inr 2
   \<and> sum_list (map conflicting_occurrences (groups clash_solver clash_board)) = 4"
  by code_simp

end
